theory Spec2Isabelle
  imports Complex_Main
begin

section \<open>Memory model\<close>

text \<open>
  The program (\<^verbatim>\<open>src/pa2/estimate.c\<close>) stores every matrix as a \<^verbatim>\<open>double **\<close>: an array
  of row pointers, each row a block of doubles obtained from \<^verbatim>\<open>malloc\<close>.  The model keeps
  this shape.  A memory maps a block and an offset inside the block to the value stored
  there; a matrix handle maps a row index to the block of that row.  Two handles may name
  the same block, so aliasing between matrices is expressible and the effect of every
  assignment on every other matrix is part of the model.

  Values are elements of a field (the rationals or the reals): the arithmetic is exact.
  A division by zero has no value in a field, and in the program it produces a
  non-finite double; the model of \<^verbatim>\<open>inverse\<close> returns \<open>None\<close> at that point.
  Row and column counts are natural numbers: the C \<^verbatim>\<open>int\<close> counters run over
  \<open>0 \<le> i < rows\<close> and never overflow for a count that fits an \<^verbatim>\<open>int\<close>.
\<close>

type_synonym 'a mem = "nat \<Rightarrow> nat \<Rightarrow> 'a"
type_synonym mat = "nat \<Rightarrow> nat"

text \<open>\<^verbatim>\<open>m[i][j]\<close> read as an expression, and \<^verbatim>\<open>m[i][j] = v\<close>.\<close>

definition rd :: "'a mem \<Rightarrow> mat \<Rightarrow> nat \<Rightarrow> nat \<Rightarrow> 'a" where
  "rd s m i j = s (m i) j"

definition wr :: "mat \<Rightarrow> nat \<Rightarrow> nat \<Rightarrow> 'a \<Rightarrow> 'a mem \<Rightarrow> 'a mem" where
  "wr m i j v s = s(m i := (s (m i))(j := v))"

text \<open>
  The rows of a matrix with \<open>n\<close> rows are \<open>n\<close> different blocks; two matrices are separate
  when they share no block.
\<close>

definition is_matrix :: "mat \<Rightarrow> nat \<Rightarrow> bool" where
  "is_matrix m n = distinct (map m [0..<n])"

definition separate :: "mat \<Rightarrow> nat \<Rightarrow> mat \<Rightarrow> nat \<Rightarrow> bool" where
  "separate m1 n1 m2 n2 = list_all (\<lambda>b. b \<notin> set (map m2 [0..<n2])) (map m1 [0..<n1])"

text \<open>
  \<^verbatim>\<open>malloc\<close> hands out blocks that were never handed out before: the heap is the memory
  together with the number of the next unused block.  \<open>malloc_rows n\<close> is the loop
  \<^verbatim>\<open>for (i = 0; i < n; i++) m[i] = malloc(...)\<close>; the row pointers it fills in are
  \<open>rows_at b\<close> for the first block \<open>b\<close> it obtains.  Allocation is taken to succeed, and the
  new blocks hold whatever the memory held there (they are not initialised).
\<close>

record 'a heap =
  next_block :: nat
  cells :: "'a mem"

definition rows_at :: "nat \<Rightarrow> mat" where
  "rows_at b i = b + i"

definition malloc_rows :: "nat \<Rightarrow> 'a heap \<Rightarrow> mat \<times> 'a heap" where
  "malloc_rows n h = (rows_at (next_block h), h\<lparr>next_block := next_block h + n\<rparr>)"

definition allocated :: "mat \<Rightarrow> nat \<Rightarrow> 'a heap \<Rightarrow> bool" where
  "allocated m n h = list_all (\<lambda>b. b < next_block h) (map m [0..<n])"

section \<open>The linear-algebra kernel\<close>

text \<open>
  \<^verbatim>\<open>transpose\<close> (lines 5-16).  Each \<^verbatim>\<open>for\<close> loop counts upwards from 0 and is the fold
  of its body over the indices.  The C function returns the destination pointer it was
  given; the model returns the memory.
\<close>

definition transpose_c :: "mat \<Rightarrow> mat \<Rightarrow> nat \<Rightarrow> nat \<Rightarrow> 'a mem \<Rightarrow> 'a mem" where
  "transpose_c matrix transposed rows cols s =
     fold (\<lambda>i. fold (\<lambda>j s. wr transposed i j (rd s matrix j i) s) [0..<rows]) [0..<cols] s"

text \<open>\<^verbatim>\<open>multiply\<close> (lines 81-95): \<^verbatim>\<open>result[i][j] += matrix1[i][k] * matrix2[k][j]\<close>.\<close>

definition multiply :: "mat \<Rightarrow> mat \<Rightarrow> mat \<Rightarrow> nat \<Rightarrow> nat \<Rightarrow> nat \<Rightarrow> 'a::field mem \<Rightarrow> 'a mem" where
  "multiply matrix1 matrix2 result rows cols cols1 s =
     fold (\<lambda>i. fold (\<lambda>j. fold (\<lambda>k s.
         wr result i j (rd s result i j + rd s matrix1 i k * rd s matrix2 k j) s)
       [0..<cols1]) [0..<cols]) [0..<rows] s"

text \<open>\<^verbatim>\<open>insertZeroes\<close> (lines 109-120).\<close>

definition insertZeroes :: "mat \<Rightarrow> nat \<Rightarrow> nat \<Rightarrow> 'a::zero mem \<Rightarrow> 'a mem" where
  "insertZeroes matrix rows cols s =
     fold (\<lambda>i. fold (\<lambda>j. wr matrix i j 0) [0..<cols]) [0..<rows] s"


text \<open>
  \<^verbatim>\<open>inverse\<close> (lines 29-78).  The two innermost loops over \<^verbatim>\<open>ct\<close>:
  \<open>divide_row\<close> is lines 53-56 (row \<open>p\<close> of both matrices divided by \<open>f\<close>) and
  \<open>subtract_row\<close> is lines 59-62, repeated as lines 69-72 (\<open>f\<close> times row \<open>p\<close> subtracted
  from row \<open>i\<close> of both matrices).  In each iteration the assignment to \<^verbatim>\<open>matrix\<close> comes
  first and the one to \<^verbatim>\<open>identity_matrix\<close> reads the memory after it.
\<close>

definition divide_row :: "mat \<Rightarrow> mat \<Rightarrow> nat \<Rightarrow> nat \<Rightarrow> 'a::field \<Rightarrow> 'a mem \<Rightarrow> 'a mem" where
  "divide_row matrix identity_matrix rows p f s =
     fold (\<lambda>ct s.
        let s1 = wr matrix p ct (rd s matrix p ct / f) s
        in wr identity_matrix p ct (rd s1 identity_matrix p ct / f) s1)
      [0..<rows] s"

definition subtract_row :: "mat \<Rightarrow> mat \<Rightarrow> nat \<Rightarrow> nat \<Rightarrow> nat \<Rightarrow> 'a::field \<Rightarrow> 'a mem \<Rightarrow> 'a mem" where
  "subtract_row matrix identity_matrix rows i p f s =
     fold (\<lambda>ct s.
        let s1 = wr matrix i ct (rd s matrix i ct - f * rd s matrix p ct) s
        in wr identity_matrix i ct (rd s1 identity_matrix i ct - f * rd s1 identity_matrix p ct) s1)
      [0..<rows] s"

text \<open>
  One iteration of the forward loop (lines 51-64) for the pivot row \<open>p\<close>.  The pivot
  \<^verbatim>\<open>f = matrix[p][p]\<close> is read once, before the row is divided; when it is zero the
  division has no value and the step returns \<open>None\<close>.  The factor of each lower row,
  \<^verbatim>\<open>f = matrix[i][p]\<close>, is read before that row is changed.
\<close>

definition forward_step :: "mat \<Rightarrow> mat \<Rightarrow> nat \<Rightarrow> nat \<Rightarrow> 'a::field mem \<Rightarrow> 'a mem option" where
  "forward_step matrix identity_matrix rows p s =
     (let f = rd s matrix p p
      in if f = 0 then None
         else Some (fold (\<lambda>i s. subtract_row matrix identity_matrix rows i p (rd s matrix i p) s)
                      [p + 1..<rows]
                      (divide_row matrix identity_matrix rows p f s)))"

definition forward :: "mat \<Rightarrow> mat \<Rightarrow> nat \<Rightarrow> 'a::field mem \<Rightarrow> 'a mem option" where
  "forward matrix identity_matrix rows s =
     fold (\<lambda>p r. case r of None \<Rightarrow> None | Some s \<Rightarrow> forward_step matrix identity_matrix rows p s)
       [0..<rows] (Some s)"

text \<open>
  The backward loop (lines 66-74): \<^verbatim>\<open>p\<close> runs from \<^verbatim>\<open>rows - 1\<close> down to 0 and, inside,
  \<^verbatim>\<open>i\<close> from \<^verbatim>\<open>p - 1\<close> down to 0.
\<close>

definition backward :: "mat \<Rightarrow> mat \<Rightarrow> nat \<Rightarrow> 'a::field mem \<Rightarrow> 'a mem" where
  "backward matrix identity_matrix rows s =
     fold (\<lambda>p. fold (\<lambda>i s. subtract_row matrix identity_matrix rows i p (rd s matrix i p) s)
                  (rev [0..<p]))
       (rev [0..<rows]) s"

text \<open>
  The whole function: \<^verbatim>\<open>identity_matrix\<close> is allocated with \<^verbatim>\<open>rows\<close> rows (lines 32-35)
  and filled over \<^verbatim>\<open>rows\<close> by \<^verbatim>\<open>cols\<close> cells (lines 37-45), then the two loops run.
  The result is the pointer \<^verbatim>\<open>identity_matrix\<close> and the heap.
\<close>

definition inverse_c :: "mat \<Rightarrow> nat \<Rightarrow> nat \<Rightarrow> 'a::field heap \<Rightarrow> (mat \<times> 'a heap) option" where
  "inverse_c matrix rows cols h =
     (let (identity_matrix, h1) = malloc_rows rows h;
          s1 = fold (\<lambda>i. fold (\<lambda>j. wr identity_matrix i j (if i = j then 1 else 0)) [0..<cols])
                 [0..<rows] (cells h1)
      in case forward matrix identity_matrix rows s1 of
           None \<Rightarrow> None
         | Some s2 \<Rightarrow> Some (identity_matrix, h1\<lparr>cells := backward matrix identity_matrix rows s2\<rparr>))"

section \<open>Notions used to state and prove the properties\<close>

text \<open>
  A matrix read from memory is a function of the row and the column.  \<open>lin n M x i\<close> is
  component \<open>i\<close> of the product of the \<open>n \<times> n\<close> matrix \<open>M\<close> with the vector \<open>x\<close>, and
  \<open>agree n M J x b\<close> says that \<open>M x = J b\<close>.  Row operations applied to both matrices keep
  the set of such pairs \<open>(x, b)\<close>, which is how the correctness of the elimination is
  proved.  \<open>lower_done\<close> and \<open>upper_done\<close> describe the columns already cleared below and
  above the diagonal, and \<open>untouched\<close> the blocks that belong to neither matrix.
\<close>

definition lin :: "nat \<Rightarrow> (nat \<Rightarrow> nat \<Rightarrow> 'a::field) \<Rightarrow> (nat \<Rightarrow> 'a) \<Rightarrow> nat \<Rightarrow> 'a" where
  "lin n M x i = (\<Sum>c<n. M i c * x c)"

definition agree :: "nat \<Rightarrow> (nat \<Rightarrow> nat \<Rightarrow> 'a::field) \<Rightarrow> (nat \<Rightarrow> nat \<Rightarrow> 'a) \<Rightarrow> (nat \<Rightarrow> 'a) \<Rightarrow> (nat \<Rightarrow> 'a) \<Rightarrow> bool" where
  "agree n M J x b = (\<forall>i<n. lin n M x i = lin n J b i)"

definition lower_done :: "nat \<Rightarrow> nat \<Rightarrow> (nat \<Rightarrow> nat \<Rightarrow> 'a::field) \<Rightarrow> bool" where
  "lower_done p n M = (\<forall>c<p. \<forall>i<n. (i = c \<longrightarrow> M i c = 1) \<and> (c < i \<longrightarrow> M i c = 0))"

definition upper_done :: "nat \<Rightarrow> nat \<Rightarrow> (nat \<Rightarrow> nat \<Rightarrow> 'a::field) \<Rightarrow> bool" where
  "upper_done p n M = (\<forall>c<n. p \<le> c \<longrightarrow> (\<forall>i<c. M i c = 0))"

definition untouched :: "mat \<Rightarrow> mat \<Rightarrow> nat \<Rightarrow> 'a mem \<Rightarrow> 'a mem \<Rightarrow> bool" where
  "untouched m j n s s' = (\<forall>b. (\<forall>i<n. b \<noteq> m i \<and> b \<noteq> j i) \<longrightarrow> s' b = s b)"

text \<open>A heap holding the matrix with rows \<open>(2, 1)\<close> and \<open>(1, 1)\<close> in blocks 0 and 1.\<close>

definition example_heap :: "rat heap" where
  "example_heap = \<lparr>next_block = 2, cells = (\<lambda>b c. if b = 0 \<and> c = 0 then 2 else 1)\<rparr>"


section \<open>The program\<close>

text \<open>
  An input file (section 6 of the specification, read by the \<^verbatim>\<open>fscanf\<close> calls of
  \<^verbatim>\<open>main\<close>): a name token, the number of attributes, the number of rows, and then the
  numbers.  The two counts are taken to be well-formed non-negative integers and the
  files to exist; a missing or malformed header is outside the model.
\<close>

record 'a input_file =
  dataset :: string
  attributes :: nat
  houses :: nat
  numbers :: "'a list"

text \<open>
  \<^verbatim>\<open>fscanf(file, "%lf", &m[i][j])\<close>: the next number of the file is stored in the cell;
  at the end of the file nothing is stored and the cell keeps its value.
\<close>

definition fscanf_lf :: "mat \<Rightarrow> nat \<Rightarrow> nat \<Rightarrow> 'a mem \<times> 'a list \<Rightarrow> 'a mem \<times> 'a list" where
  "fscanf_lf m i j st = (case snd st of [] \<Rightarrow> st | v # rest \<Rightarrow> (wr m i j v (fst st), rest))"

text \<open>
  The loops of lines 139-142 and 237-240 allocate the rows of two matrices in turn:
  row \<open>i\<close> of the first is block \<open>b + 2 i\<close> and row \<open>i\<close> of the second is the block after it.
\<close>

definition rows_at2 :: "nat \<Rightarrow> mat" where
  "rows_at2 b i = b + 2 * i"

definition malloc_rows2 :: "nat \<Rightarrow> 'a heap \<Rightarrow> (mat \<times> mat) \<times> 'a heap" where
  "malloc_rows2 n h =
     ((rows_at2 (next_block h), rows_at2 (next_block h + 1)), h\<lparr>next_block := next_block h + 2 * n\<rparr>)"

definition on_cells :: "('a mem \<Rightarrow> 'a mem) \<Rightarrow> 'a heap \<Rightarrow> 'a heap" where
  "on_cells f h = h\<lparr>cells := f (cells h)\<rparr>"

text \<open>
  Lines 135-164 of \<^verbatim>\<open>main\<close>: the matrices \<^verbatim>\<open>matrix_x\<close>, \<^verbatim>\<open>vector_y\<close> and \<^verbatim>\<open>vector_w\<close>
  are allocated and cleared, and the training rows are read.  Column 0 of
  \<^verbatim>\<open>matrix_x\<close> is set to 1; each row takes \<^verbatim>\<open>num_of_attributes\<close> numbers for the
  columns from 1 and one number for \<^verbatim>\<open>vector_y\<close>.
\<close>

definition read_row :: "mat \<Rightarrow> nat \<Rightarrow> nat \<Rightarrow> 'a::one mem \<times> 'a list \<Rightarrow> 'a mem \<times> 'a list" where
  "read_row matrix_x num_of_attributes i st =
     fold (\<lambda>j. fscanf_lf matrix_x i j) [1..<num_of_attributes + 1] (wr matrix_x i 0 1 (fst st), snd st)"

definition read_training_rows :: "mat \<Rightarrow> mat \<Rightarrow> nat \<Rightarrow> nat \<Rightarrow> 'a::one list \<Rightarrow> 'a mem \<Rightarrow> 'a mem" where
  "read_training_rows matrix_x vector_y num_of_houses num_of_attributes toks s =
     fst (fold (\<lambda>i st. fscanf_lf vector_y i 0 (read_row matrix_x num_of_attributes i st))
            [0..<num_of_houses] (s, toks))"

definition main_read_training :: "'a::{zero,one} input_file \<Rightarrow> 'a heap \<Rightarrow> (mat \<times> mat \<times> mat) \<times> 'a heap" where
  "main_read_training file1 h =
     (let num_of_attributes = attributes file1;
          num_of_houses = houses file1;
          ((matrix_x, vector_y), h1) = malloc_rows2 num_of_houses h;
          (vector_w, h2) = malloc_rows (num_of_attributes + 1) h1;
          h3 = on_cells (insertZeroes matrix_x num_of_houses (num_of_attributes + 1)) h2;
          h4 = on_cells (insertZeroes vector_y num_of_houses 1) h3;
          h5 = on_cells (insertZeroes vector_w (num_of_attributes + 1) 1) h4;
          h6 = on_cells (read_training_rows matrix_x vector_y num_of_houses num_of_attributes
                  (numbers file1)) h5
      in ((matrix_x, vector_y, vector_w), h6))"

text \<open>
  Lines 166-210: the solve.  Each buffer is allocated and cleared before the call that
  fills it.  The buffer allocated and cleared for \<^verbatim>\<open>inverse_x\<close> (lines 190-195) is
  dropped when \<^verbatim>\<open>inverse\<close> returns the matrix it allocated itself (line 197).  The result
  is \<open>None\<close> when \<^verbatim>\<open>inverse\<close> met a zero pivot.
\<close>

definition main_solve :: "mat \<Rightarrow> mat \<Rightarrow> mat \<Rightarrow> nat \<Rightarrow> nat \<Rightarrow> 'a::field heap \<Rightarrow> 'a heap option" where
  "main_solve matrix_x vector_y vector_w num_of_houses num_of_attributes h =
     (let (transpose_x, h1) = malloc_rows (num_of_attributes + 1) h;
          h2 = on_cells (insertZeroes transpose_x (num_of_attributes + 1) num_of_houses) h1;
          h3 = on_cells (transpose_c matrix_x transpose_x num_of_houses (num_of_attributes + 1)) h2;
          (product_x, h4) = malloc_rows (num_of_attributes + 1) h3;
          h5 = on_cells (insertZeroes product_x (num_of_attributes + 1) (num_of_attributes + 1)) h4;
          h6 = on_cells (multiply transpose_x matrix_x product_x
                  (num_of_attributes + 1) (num_of_attributes + 1) num_of_houses) h5;
          (inverse_x0, h7) = malloc_rows (num_of_attributes + 1) h6;
          h8 = on_cells (insertZeroes inverse_x0 (num_of_attributes + 1) (num_of_attributes + 1)) h7
      in case inverse_c product_x (num_of_attributes + 1) (num_of_attributes + 1) h8 of
           None \<Rightarrow> None
         | Some (inverse_x, h9) \<Rightarrow>
             (let (result_x, h10) = malloc_rows (num_of_attributes + 1) h9;
                  h11 = on_cells (insertZeroes result_x (num_of_attributes + 1) num_of_houses) h10;
                  h12 = on_cells (multiply inverse_x transpose_x result_x
                           (num_of_attributes + 1) num_of_houses (num_of_attributes + 1)) h11
              in Some (on_cells (multiply result_x vector_y vector_w
                           (num_of_attributes + 1) 1 num_of_houses) h12)))"

text \<open>
  Lines 234-253: the query rows are read into \<^verbatim>\<open>estimator_x\<close> (column 0 set to 1, no
  target column) and multiplied with \<^verbatim>\<open>vector_w\<close> into \<^verbatim>\<open>estimator_y\<close>.
\<close>

definition read_query_rows :: "mat \<Rightarrow> nat \<Rightarrow> nat \<Rightarrow> 'a::one list \<Rightarrow> 'a mem \<Rightarrow> 'a mem" where
  "read_query_rows estimator_x num_of_houses_2 num_of_attributes_2 toks s =
     fst (fold (\<lambda>i st. read_row estimator_x num_of_attributes_2 i st)
            [0..<num_of_houses_2] (s, toks))"

definition main_estimate :: "mat \<Rightarrow> 'a::field input_file \<Rightarrow> 'a heap \<Rightarrow> (mat \<times> mat) \<times> 'a heap" where
  "main_estimate vector_w file2 h =
     (let num_of_attributes_2 = attributes file2;
          num_of_houses_2 = houses file2;
          ((estimator_x, estimator_y), h1) = malloc_rows2 num_of_houses_2 h;
          h2 = on_cells (insertZeroes estimator_x num_of_houses_2 (num_of_attributes_2 + 1)) h1;
          h3 = on_cells (insertZeroes estimator_y num_of_houses_2 1) h2;
          h4 = on_cells (read_query_rows estimator_x num_of_houses_2 num_of_attributes_2
                  (numbers file2)) h3;
          h5 = on_cells (multiply estimator_x vector_w estimator_y
                  num_of_houses_2 1 (num_of_attributes_2 + 1)) h4
      in ((estimator_x, estimator_y), h5))"

text \<open>
  \<^verbatim>\<open>printf("%.0f", v)\<close> of the C library: the value in decimal with no digit after the
  point and no point, rounded to the nearest integer, a tie going to the even one (the
  default rounding of the conversion); a negative value keeps its sign.  \<open>decimal\<close> is the
  digit string of a natural number.
\<close>

function decimal :: "nat \<Rightarrow> string" where
  "decimal n = (if n < 10 then [''0123456789'' ! n]
                else decimal (n div 10) @ [''0123456789'' ! (n mod 10)])"
  by pat_completeness auto
termination
  by (relation "measure id") auto

declare decimal.simps [simp del]

definition round_half_even :: "'a::floor_ceiling \<Rightarrow> int" where
  "round_half_even x =
     (let n = \<lfloor>x\<rfloor>; d = x - of_int n
      in if d < 1 / 2 then n else if 1 / 2 < d then n + 1 else if even n then n else n + 1)"

definition printf_0f :: "'a::floor_ceiling \<Rightarrow> string" where
  "printf_0f x = (if x < 0 then ''-'' else []) @ decimal (nat \<bar>round_half_even x\<bar>)"

text \<open>
  \<^verbatim>\<open>printPriceMatrix\<close> (lines 18-27): the cells of a row are printed one after the other
  with nothing between them, then a newline.  The result is the list of lines.
\<close>

definition printPriceMatrix :: "mat \<Rightarrow> nat \<Rightarrow> nat \<Rightarrow> 'a::floor_ceiling mem \<Rightarrow> string list" where
  "printPriceMatrix matrix rows cols s =
     map (\<lambda>i. concat (map (\<lambda>j. printf_0f (rd s matrix i j)) [0..<cols])) [0..<rows]"

text \<open>
  \<^verbatim>\<open>main\<close> (lines 122-261).  \<open>main_training\<close> is the part up to line 212: the training
  file is read and solved, starting from an empty heap.  This comes first; the header of
  the second file is read after that, and only then the two attribute counts are compared
  (line 227).  The state at exit holds the lines printed, the exit status, the pointer
  variables and the memory.  The memory is \<open>None\<close> when \<^verbatim>\<open>inverse\<close> divided by a zero
  pivot: the values are then outside the exact arithmetic of this model, and so is the text
  of the numbers printed from them (\<open>Unmodelled\<close>); the flow of control does not depend on
  them.  The first argument is the content of the memory before the program writes to it.
\<close>

datatype printed = Line string | Unmodelled

record 'a exit_state =
  stdout :: "printed list"
  exit_status :: int
  matrix_x_ptr :: mat
  vector_y_ptr :: mat
  vector_w_ptr :: mat
  estimator_ptrs :: "(mat \<times> mat) option"
  memory :: "'a mem option"

definition main_training :: "'a::field mem \<Rightarrow> 'a input_file \<Rightarrow> (mat \<times> mat \<times> mat) \<times> 'a heap option" where
  "main_training garbage file1 =
     (let ((X, y, w), h) = main_read_training file1 \<lparr>next_block = 0, cells = garbage\<rparr>
      in ((X, y, w), main_solve X y w (houses file1) (attributes file1) h))"

definition main :: "'a::floor_ceiling mem \<Rightarrow> 'a input_file \<Rightarrow> 'a input_file \<Rightarrow> 'a exit_state" where
  "main garbage file1 file2 =
     (let ((X, y, w), trained) = main_training garbage file1
      in if attributes file1 \<noteq> attributes file2
         then \<lparr>stdout = [Line ''error''], exit_status = 0,
               matrix_x_ptr = X, vector_y_ptr = y, vector_w_ptr = w,
               estimator_ptrs = None, memory = map_option cells trained\<rparr>
         else (case trained of
                 None \<Rightarrow>
                   \<lparr>stdout = replicate (houses file2) Unmodelled, exit_status = 0,
                    matrix_x_ptr = X, vector_y_ptr = y, vector_w_ptr = w,
                    estimator_ptrs = None, memory = None\<rparr>
               | Some h' \<Rightarrow>
                   (let ((estimator_x, estimator_y), h'') = main_estimate w file2 h'
                    in \<lparr>stdout = map Line (printPriceMatrix estimator_y (houses file2) 1 (cells h'')),
                        exit_status = 0,
                        matrix_x_ptr = X, vector_y_ptr = y, vector_w_ptr = w,
                        estimator_ptrs = Some (estimator_x, estimator_y),
                        memory = Some (cells h'')\<rparr>)))"

text \<open>What a run leaves in memory: the coefficient vector and the predictions.\<close>

definition coefficients :: "'a exit_state \<Rightarrow> nat \<Rightarrow> 'a list option" where
  "coefficients r n = map_option (\<lambda>s. map (\<lambda>i. rd s (vector_w_ptr r) i 0) [0..<n + 1]) (memory r)"

definition predictions :: "'a exit_state \<Rightarrow> nat \<Rightarrow> 'a list option" where
  "predictions r k =
     (case (memory r, estimator_ptrs r) of
        (Some s, Some (estimator_x, estimator_y)) \<Rightarrow> Some (map (\<lambda>i. rd s estimator_y i 0) [0..<k])
      | _ \<Rightarrow> None)"

text \<open>
  The reading of the specification's words "truncated to an integer (no decimal point)":
  the digits of the integer part, the fraction dropped.
\<close>

definition truncated_text :: "'a::floor_ceiling \<Rightarrow> string" where
  "truncated_text x = (if x < 0 then ''-'' else []) @ decimal (nat \<lfloor>\<bar>x\<bar>\<rfloor>)"

text \<open>
  Example inputs.  The training file of the specification's first scenario (1 attribute,
  2 rows, data \<open>(1, 3)\<close> and \<open>(2, 5)\<close>) with its query row \<open>(4)\<close>; a query file that declares
  2 attributes; and a training file for the line \<open>y = 2 x + 7/4\<close>.
\<close>

definition train_file :: "rat input_file" where
  "train_file = \<lparr>dataset = ''train'', attributes = 1, houses = 2, numbers = [1, 3, 2, 5]\<rparr>"

definition query_file :: "rat input_file" where
  "query_file = \<lparr>dataset = ''data'', attributes = 1, houses = 1, numbers = [4]\<rparr>"

definition query_file_2 :: "rat input_file" where
  "query_file_2 = \<lparr>dataset = ''data'', attributes = 2, houses = 1, numbers = [4, 6]\<rparr>"

definition train_file_q :: "rat input_file" where
  "train_file_q = \<lparr>dataset = ''train'', attributes = 1, houses = 2, numbers = [1, 15 / 4, 2, 23 / 4]\<rparr>"

definition garbage0 :: "rat mem" where
  "garbage0 = (\<lambda>b c. 7)"


section \<open>Matrices in memory\<close>

lemma is_matrix_iff: "is_matrix m n \<longleftrightarrow> inj_on m {..<n}"
  by (simp add: is_matrix_def distinct_map atLeast0LessThan)

lemma separate_iff: "separate m1 n1 m2 n2 \<longleftrightarrow> (\<forall>i<n1. \<forall>j<n2. m1 i \<noteq> m2 j)"
proof -
  have "separate m1 n1 m2 n2 \<longleftrightarrow> (\<forall>i\<in>{0..<n1}. \<forall>j\<in>{0..<n2}. m1 i \<noteq> m2 j)"
    unfolding separate_def list_all_iff by (simp add: image_iff)
  then show ?thesis by auto
qed

lemma separateD: "separate m1 n1 m2 n2 \<Longrightarrow> i < n1 \<Longrightarrow> j < n2 \<Longrightarrow> m1 i \<noteq> m2 j"
  by (simp add: separate_iff)

lemma is_matrixD: "is_matrix m n \<Longrightarrow> i < n \<Longrightarrow> j < n \<Longrightarrow> m i = m j \<Longrightarrow> i = j"
  by (auto simp: is_matrix_iff inj_on_def)

lemma fold_upt_Suc: "fold f [0..<Suc n] s = f n (fold f [0..<n] s)"
  by simp


section \<open>Transpose\<close>

lemma transpose_row:
  assumes "\<forall>j<rows. matrix j \<noteq> transposed i"
  shows "fold (\<lambda>j s. wr transposed i j (rd s matrix j i) s) [0..<rows] s =
         (\<lambda>b c. if b = transposed i \<and> c < rows then s (matrix c) i else s b c)"
  using assms
proof (induction rows)
  case 0
  show ?case by simp
next
  case (Suc n)
  then have IH: "fold (\<lambda>j s. wr transposed i j (rd s matrix j i) s) [0..<n] s =
         (\<lambda>b c. if b = transposed i \<and> c < n then s (matrix c) i else s b c)"
    by simp
  from Suc.prems have ne: "matrix n \<noteq> transposed i" by simp
  show ?case
    unfolding fold_upt_Suc IH
    using ne by (auto simp: wr_def rd_def fun_eq_iff less_Suc_eq)
qed

lemma transpose_c_cells:
  assumes M: "is_matrix transposed cols" and S: "separate transposed cols matrix rows"
  shows "(\<forall>i<cols. \<forall>j<rows. rd (transpose_c matrix transposed rows cols s) transposed i j = rd s matrix j i)
       \<and> (\<forall>b c. (\<forall>i<cols. b = transposed i \<longrightarrow> rows \<le> c) \<longrightarrow> transpose_c matrix transposed rows cols s b c = s b c)"
proof -
  define T where "T k = fold (\<lambda>i. fold (\<lambda>j s. wr transposed i j (rd s matrix j i) s) [0..<rows]) [0..<k] s" for k
  have "k \<le> cols \<Longrightarrow> (\<forall>i<k. \<forall>j<rows. T k (transposed i) j = s (matrix j) i)
       \<and> (\<forall>b c. (\<forall>i<k. b = transposed i \<longrightarrow> rows \<le> c) \<longrightarrow> T k b c = s b c)" for k
  proof (induction k)
    case 0
    show ?case by (simp add: T_def)
  next
    case (Suc k)
    then have IH1: "\<And>i j. i < k \<Longrightarrow> j < rows \<Longrightarrow> T k (transposed i) j = s (matrix j) i"
      and IH2: "\<And>b c. (\<forall>i<k. b = transposed i \<longrightarrow> rows \<le> c) \<Longrightarrow> T k b c = s b c"
      by auto
    have sep: "\<forall>j<rows. matrix j \<noteq> transposed k"
      using separateD[OF S, of k] Suc.prems by fastforce
    have step: "T (Suc k) = (\<lambda>b c. if b = transposed k \<and> c < rows then T k (matrix c) k else T k b c)"
      unfolding T_def fold_upt_Suc by (rule transpose_row[of rows matrix transposed k, OF sep])
    have src: "T k (matrix c) d = s (matrix c) d" if "c < rows" for c d
    proof (rule IH2, intro allI impI)
      fix i assume "i < k" "matrix c = transposed i"
      with separateD[OF S, of i c] Suc.prems that show "rows \<le> d" by simp
    qed
    have dist: "transposed i \<noteq> transposed k" if "i < k" for i
      using is_matrixD[OF M, of i k] that Suc.prems by auto
    show ?case
      unfolding step using IH1 IH2 src dist by (auto simp: less_Suc_eq)
  qed
  from this[of cols] show ?thesis
    by (simp add: T_def transpose_c_def rd_def)
qed


text \<open>
  Claim C6.  For a \<open>rows \<times> cols\<close> source matrix and a destination of \<open>cols\<close> rows that are
  distinct blocks and share no block with the source, \<^verbatim>\<open>transpose\<close> leaves in the
  destination \<open>result[i][j] = source[j][i]\<close> for all \<open>i < cols\<close> and \<open>j < rows\<close>, and every
  cell of the source holds afterwards the value it held before.
\<close>

theorem transpose_c_correct:
  assumes "is_matrix transposed cols" and "separate transposed cols matrix rows"
  shows "(\<forall>i<cols. \<forall>j<rows.
            rd (transpose_c matrix transposed rows cols s) transposed i j = rd s matrix j i)
       \<and> (\<forall>j<rows. \<forall>i. rd (transpose_c matrix transposed rows cols s) matrix j i = rd s matrix j i)"
proof -
  note C = transpose_c_cells[OF assms, of s]
  have "rd (transpose_c matrix transposed rows cols s) matrix j i = rd s matrix j i"
    if "j < rows" for i j
  proof -
    have "\<forall>k<cols. matrix j = transposed k \<longrightarrow> rows \<le> i"
      using separateD[OF assms(2) _ that] by metis
    with C show ?thesis by (simp add: rd_def)
  qed
  with C show ?thesis by blast
qed

theorem transpose_c_correct_witness:
  "is_matrix (rows_at 2) 3 \<and> separate (rows_at 2) 3 (rows_at 0) 2
   \<and> rd (transpose_c (rows_at 0) (rows_at 2) 2 3 (\<lambda>b c. of_nat (10 * b + c) :: rat)) (rows_at 2) 2 1 = 12
   \<and> rd (transpose_c (rows_at 0) (rows_at 2) 2 3 (\<lambda>b c. of_nat (10 * b + c) :: rat)) (rows_at 0) 1 2 = 12"
proof -
  have h1: "is_matrix (rows_at 2) 3" by code_simp
  have h2: "separate (rows_at 2) 3 (rows_at 0) 2" by code_simp
  note T = transpose_c_correct[OF h1 h2, of "\<lambda>b c. of_nat (10 * b + c) :: rat"]
  from T[THEN conjunct1, rule_format, of 2 1] T[THEN conjunct2, rule_format, of 1 2] h1 h2
  show ?thesis by (simp add: rd_def rows_at_def)
qed

text \<open>
  Claim C7.  Transposing a \<open>rows \<times> cols\<close> matrix \<open>a\<close> into \<open>t\<close> and then \<open>t\<close> into \<open>b\<close> leaves
  in \<open>b\<close> the matrix \<open>a\<close>, cell for cell.
\<close>

theorem transpose_c_involution:
  assumes "is_matrix t cols" and "separate t cols a rows"
    and "is_matrix b rows" and "separate b rows t cols"
  shows "\<forall>i<rows. \<forall>j<cols.
           rd (transpose_c t b cols rows (transpose_c a t rows cols s)) b i j = rd s a i j"
  using transpose_c_cells[OF assms(1,2), of s]
    transpose_c_cells[OF assms(3,4), of "transpose_c a t rows cols s"]
  by simp

theorem transpose_c_involution_witness:
  "is_matrix (rows_at 2) 3 \<and> separate (rows_at 2) 3 (rows_at 0) 2
   \<and> is_matrix (rows_at 5) 2 \<and> separate (rows_at 5) 2 (rows_at 2) 3
   \<and> rd (transpose_c (rows_at 2) (rows_at 5) 3 2
          (transpose_c (rows_at 0) (rows_at 2) 2 3 (\<lambda>b c. of_nat (10 * b + c) :: rat)))
        (rows_at 5) 1 2 = 12"
proof -
  have h1: "is_matrix (rows_at 2) 3" by code_simp
  have h2: "separate (rows_at 2) 3 (rows_at 0) 2" by code_simp
  have h3: "is_matrix (rows_at 5) 2" by code_simp
  have h4: "separate (rows_at 5) 2 (rows_at 2) 3" by code_simp
  from transpose_c_involution[OF h1 h2 h3 h4, of "\<lambda>b c. of_nat (10 * b + c) :: rat",
      rule_format, of 1 2] h1 h2 h3 h4
  show ?thesis by (simp add: rd_def rows_at_def)
qed


section \<open>Multiply and zero fill\<close>

lemma multiply_cell:
  fixes s :: "'a::field mem"
  assumes "result i \<noteq> matrix1 i" and "\<forall>k<n. matrix2 k \<noteq> result i"
  shows "fold (\<lambda>k s. wr result i j (rd s result i j + rd s matrix1 i k * rd s matrix2 k j) s) [0..<n] s
       = (\<lambda>b c. if b = result i \<and> c = j
                 then s b c + (\<Sum>k<n. s (matrix1 i) k * s (matrix2 k) j) else s b c)"
  using assms
proof (induction n)
  case 0
  show ?case by (simp add: fun_eq_iff)
next
  case (Suc n)
  then have IH: "fold (\<lambda>k s. wr result i j (rd s result i j + rd s matrix1 i k * rd s matrix2 k j) s) [0..<n] s
       = (\<lambda>b c. if b = result i \<and> c = j
                 then s b c + (\<Sum>k<n. s (matrix1 i) k * s (matrix2 k) j) else s b c)"
    by simp
  from Suc.prems have ne: "matrix2 n \<noteq> result i" "matrix1 i \<noteq> result i" by auto
  show ?case
    unfolding fold_upt_Suc IH
    using ne by (auto simp: wr_def rd_def fun_eq_iff)
qed

lemma multiply_row:
  fixes s :: "'a::field mem"
  assumes "result i \<noteq> matrix1 i" and "\<forall>k<cols1. matrix2 k \<noteq> result i"
  shows "fold (\<lambda>j. fold (\<lambda>k s.
             wr result i j (rd s result i j + rd s matrix1 i k * rd s matrix2 k j) s) [0..<cols1])
           [0..<n] s
       = (\<lambda>b c. if b = result i \<and> c < n
                 then s b c + (\<Sum>k<cols1. s (matrix1 i) k * s (matrix2 k) c) else s b c)"
proof (induction n)
  case 0
  show ?case by simp
next
  case (Suc n)
  from assms have ne: "\<And>k. k < cols1 \<Longrightarrow> matrix2 k \<noteq> result i" "matrix1 i \<noteq> result i" by auto
  note cell = multiply_cell[of result i matrix1 cols1 matrix2, OF assms]
  show ?case
    apply (subst fold_upt_Suc)
    apply (subst Suc.IH)
    apply (subst cell)
    using ne apply (auto simp: fun_eq_iff less_Suc_eq)
    done
qed


lemma multiply_cells:
  fixes s :: "'a::field mem"
  assumes M: "is_matrix result rows" and S1: "separate result rows matrix1 rows"
    and S2: "separate result rows matrix2 cols1"
  shows "(\<forall>i<rows. \<forall>j<cols. rd (multiply matrix1 matrix2 result rows cols cols1 s) result i j
            = rd s result i j + (\<Sum>k<cols1. rd s matrix1 i k * rd s matrix2 k j))
       \<and> (\<forall>b c. (\<forall>i<rows. b = result i \<longrightarrow> cols \<le> c)
            \<longrightarrow> multiply matrix1 matrix2 result rows cols cols1 s b c = s b c)"
proof -
  define T where "T n = fold (\<lambda>i. fold (\<lambda>j. fold (\<lambda>k s.
         wr result i j (rd s result i j + rd s matrix1 i k * rd s matrix2 k j) s)
       [0..<cols1]) [0..<cols]) [0..<n] s" for n
  have "n \<le> rows \<Longrightarrow>
        (\<forall>i<n. \<forall>j<cols. T n (result i) j
            = s (result i) j + (\<Sum>k<cols1. s (matrix1 i) k * s (matrix2 k) j))
      \<and> (\<forall>b c. (\<forall>i<n. b = result i \<longrightarrow> cols \<le> c) \<longrightarrow> T n b c = s b c)" for n
  proof (induction n)
    case 0
    show ?case by (simp add: T_def)
  next
    case (Suc n)
    then have IH1: "\<And>i j. i < n \<Longrightarrow> j < cols \<Longrightarrow> T n (result i) j
            = s (result i) j + (\<Sum>k<cols1. s (matrix1 i) k * s (matrix2 k) j)"
      and IH2: "\<And>b c. (\<forall>i<n. b = result i \<longrightarrow> cols \<le> c) \<Longrightarrow> T n b c = s b c"
      by auto
    have n: "n < rows" using Suc.prems by simp
    have a1: "result n \<noteq> matrix1 n" using separateD[OF S1 n n] .
    have a2: "\<forall>k<cols1. matrix2 k \<noteq> result n" using separateD[OF S2 n] by fastforce
    have step: "T (Suc n) = (\<lambda>b c. if b = result n \<and> c < cols
         then T n b c + (\<Sum>k<cols1. T n (matrix1 n) k * T n (matrix2 k) c) else T n b c)"
      unfolding T_def fold_upt_Suc
      by (rule multiply_row[of result n matrix1 cols1 matrix2, OF a1 a2])
    have m1: "T n (matrix1 n) d = s (matrix1 n) d" for d
    proof (rule IH2, intro allI impI)
      fix i assume "i < n" "matrix1 n = result i"
      with separateD[OF S1, of i n] n show "cols \<le> d" by simp
    qed
    have m2: "T n (matrix2 k) d = s (matrix2 k) d" if "k < cols1" for k d
    proof (rule IH2, intro allI impI)
      fix i assume "i < n" "matrix2 k = result i"
      with separateD[OF S2, of i k] n that show "cols \<le> d" by simp
    qed
    have dist: "result i \<noteq> result n" if "i < n" for i
      using is_matrixD[OF M, of i n] that n by auto
    have own: "T n (result n) d = s (result n) d" for d
      using dist by (intro IH2) metis
    have sum_eq: "(\<Sum>k<cols1. T n (matrix1 n) k * T n (matrix2 k) c)
                = (\<Sum>k<cols1. s (matrix1 n) k * s (matrix2 k) c)" for c
      by (rule sum.cong) (simp_all add: m1 m2)
    show ?case
      unfolding step sum_eq using IH1 IH2 own dist by (auto simp: less_Suc_eq)
  qed
  from this[of rows] show ?thesis
    by (simp add: T_def multiply_def rd_def)
qed





text \<open>
  Claim C10.  When the destination \<open>D\<close> shares no block with \<open>A\<close> and \<open>B\<close>, \<^verbatim>\<open>multiply\<close>
  leaves every cell of \<open>A\<close> and of \<open>B\<close> as it was; indeed every block that is not a row of
  \<open>D\<close> is unchanged.
\<close>

theorem multiply_frame:
  fixes s :: "'a::field mem"
  assumes "is_matrix D rows" and "separate D rows A rows" and "separate D rows B inner"
  shows "(\<forall>i<rows. \<forall>l. rd (multiply A B D rows cols inner s) A i l = rd s A i l)
       \<and> (\<forall>l<inner. \<forall>j. rd (multiply A B D rows cols inner s) B l j = rd s B l j)
       \<and> (\<forall>b c. b \<notin> set (map D [0..<rows]) \<longrightarrow> multiply A B D rows cols inner s b c = s b c)"
proof -
  have F: "multiply A B D rows cols inner s b c = s b c" if "\<forall>i<rows. b \<noteq> D i" for b c
    using multiply_cells[OF assms, of cols s] that by blast
  have "rd (multiply A B D rows cols inner s) A i l = rd s A i l" if "i < rows" for i l
    unfolding rd_def using separateD[OF assms(2) _ that] by (intro F) metis
  moreover have "rd (multiply A B D rows cols inner s) B l j = rd s B l j" if "l < inner" for l j
    unfolding rd_def using separateD[OF assms(3) _ that] by (intro F) metis
  moreover have "multiply A B D rows cols inner s b c = s b c" if "b \<notin> set (map D [0..<rows])" for b c
    using that by (intro F) auto
  ultimately show ?thesis by blast
qed

theorem multiply_frame_witness:
  "is_matrix (rows_at 4) 2 \<and> separate (rows_at 4) 2 (rows_at 0) 2 \<and> separate (rows_at 4) 2 (rows_at 2) 2
   \<and> rd (multiply (rows_at 0) (rows_at 2) (rows_at 4) 2 2 2 (\<lambda>b c. of_nat (10 * b + c) :: rat))
        (rows_at 0) 1 1 = 11
   \<and> rd (multiply (rows_at 0) (rows_at 2) (rows_at 4) 2 2 2 (\<lambda>b c. of_nat (10 * b + c) :: rat))
        (rows_at 2) 1 0 = 30"
proof -
  have h1: "is_matrix (rows_at 4) 2" by code_simp
  have h2: "separate (rows_at 4) 2 (rows_at 0) 2" by code_simp
  have h3: "separate (rows_at 4) 2 (rows_at 2) 2" by code_simp
  note T = multiply_frame[OF h1 h2 h3, of 2 "\<lambda>b c. of_nat (10 * b + c) :: rat"]
  from T[THEN conjunct1, rule_format, of 1 1] T[THEN conjunct2, THEN conjunct1, rule_format, of 1 0]
    h1 h2 h3
  show ?thesis by (simp add: rd_def rows_at_def)
qed


section \<open>Gauss-Jordan inversion\<close>

lemma is_matrix_eq: "is_matrix m n \<Longrightarrow> a < n \<Longrightarrow> b < n \<Longrightarrow> (m a = m b) = (a = b)"
  by (auto simp: is_matrix_iff inj_on_def)

lemma separate_neq: "separate m n j k \<Longrightarrow> a < n \<Longrightarrow> b < k \<Longrightarrow> (m a = j b) = False"
  by (simp add: separate_iff)

lemma separate_neq': "separate m n j k \<Longrightarrow> a < n \<Longrightarrow> b < k \<Longrightarrow> (j b = m a) = False"
  using separateD[of m n j k a b] by auto

lemma divide_row_cells:
  fixes s :: "'a::field mem"
  assumes "matrix p \<noteq> identity_matrix p"
  shows "divide_row matrix identity_matrix rows p f s =
     (\<lambda>b c. if (b = matrix p \<or> b = identity_matrix p) \<and> c < rows then s b c / f else s b c)"
  unfolding divide_row_def
proof (induction rows)
  case 0
  show ?case by simp
next
  case (Suc n)
  show ?case
    apply (subst fold_upt_Suc)
    apply (simp only: Suc.IH)
    using assms apply (auto simp: Let_def wr_def rd_def fun_eq_iff less_Suc_eq)
    done
qed

lemma subtract_row_cells:
  fixes s :: "'a::field mem"
  assumes "matrix i \<noteq> matrix p" and "matrix i \<noteq> identity_matrix i"
    and "matrix i \<noteq> identity_matrix p" and "identity_matrix i \<noteq> identity_matrix p"
    and "identity_matrix i \<noteq> matrix p"
  shows "subtract_row matrix identity_matrix rows i p f s =
     (\<lambda>b c. if b = matrix i \<and> c < rows then s b c - f * s (matrix p) c
            else if b = identity_matrix i \<and> c < rows then s b c - f * s (identity_matrix p) c
            else s b c)"
  unfolding subtract_row_def
proof (induction rows)
  case 0
  show ?case by simp
next
  case (Suc n)
  show ?case
    apply (subst fold_upt_Suc)
    apply (simp only: Suc.IH)
    using assms apply (auto simp: Let_def wr_def rd_def fun_eq_iff less_Suc_eq)
    done
qed


lemma lin_row_op:
  assumes "\<forall>c<n. M' i c = a * M i c + g * M p c"
  shows "lin n M' x i = a * lin n M x i + g * lin n M x p"
proof -
  have "lin n M' x i = (\<Sum>c<n. a * (M i c * x c) + g * (M p c * x c))"
    unfolding lin_def using assms by (intro sum.cong) (auto simp: algebra_simps)
  then show ?thesis
    by (simp add: lin_def sum.distrib sum_distrib_left)
qed

lemma row_op_agree:
  fixes M :: "nat \<Rightarrow> nat \<Rightarrow> 'a::field"
  assumes p: "p < n" and a: "\<forall>i<n. a i \<noteq> 0" and g: "g p = 0"
    and M': "\<forall>i<n. \<forall>c<n. M' i c = a i * M i c + g i * M p c"
    and J': "\<forall>i<n. \<forall>c<n. J' i c = a i * J i c + g i * J p c"
  shows "agree n M' J' x b \<longleftrightarrow> agree n M J x b"
proof -
  have LM: "lin n M' x i = a i * lin n M x i + g i * lin n M x p" if "i < n" for i
    using M' that by (intro lin_row_op) simp
  have LJ: "lin n J' b i = a i * lin n J b i + g i * lin n J b p" if "i < n" for i
    using J' that by (intro lin_row_op) simp
  show ?thesis
  proof
    assume A: "agree n M' J' x b"
    have P: "lin n M x p = lin n J b p"
    proof -
      from A p have "lin n M' x p = lin n J' b p" by (simp add: agree_def)
      then have "a p * lin n M x p = a p * lin n J b p"
        using LM[OF p] LJ[OF p] g by simp
      with a p show ?thesis by simp
    qed
    show "agree n M J x b"
      unfolding agree_def
    proof (intro allI impI)
      fix i assume i: "i < n"
      from A i have "lin n M' x i = lin n J' b i" by (simp add: agree_def)
      then have "a i * lin n M x i = a i * lin n J b i"
        using LM[OF i] LJ[OF i] P by simp
      with a i show "lin n M x i = lin n J b i" by simp
    qed
  next
    assume "agree n M J x b"
    then show "agree n M' J' x b"
      using LM LJ p by (simp add: agree_def)
  qed
qed

lemma lin_unit:
  fixes x :: "nat \<Rightarrow> 'a::field"
  assumes "i < n" and "\<forall>c<n. M i c = (if i = c then 1 else 0)"
  shows "lin n M x i = x i"
proof -
  have "lin n M x i = (\<Sum>c<n. if c = i then x c else 0)"
    unfolding lin_def using assms(2) by (intro sum.cong) auto
  also have "\<dots> = x i" using assms(1) by simp
  finally show ?thesis .
qed

lemma lin_unit_vec:
  fixes J :: "nat \<Rightarrow> nat \<Rightarrow> 'a::field"
  assumes "j < n"
  shows "lin n J (\<lambda>c. if c = j then 1 else 0) i = J i j"
proof -
  have "lin n J (\<lambda>c. if c = j then 1 else 0) i = (\<Sum>c<n. if c = j then J i c else 0)"
    unfolding lin_def by (intro sum.cong) auto
  also have "\<dots> = J i j" using assms by simp
  finally show ?thesis .
qed

text \<open>
  When the reduced left matrix is the identity, agreement of the solution sets gives both
  inverse laws: take the unit vectors as right-hand sides and as unknowns.
\<close>

lemma agree_identity_inverse:
  fixes A :: "nat \<Rightarrow> nat \<Rightarrow> 'a::field"
  assumes E: "\<And>x b. agree n M J x b \<longleftrightarrow> agree n A I0 x b"
    and M: "\<forall>i<n. \<forall>c<n. M i c = (if i = c then 1 else 0)"
    and I0: "\<forall>i<n. \<forall>c<n. I0 i c = (if i = c then 1 else 0)"
    and i: "i < n" and j: "j < n"
  shows "(\<Sum>k<n. A i k * J k j) = (if i = j then 1 else 0)"
    and "(\<Sum>k<n. J i k * A k j) = (if i = j then 1 else 0)"
proof -
  let ?e = "\<lambda>c. if c = j then (1::'a) else 0"
  have "agree n M J (\<lambda>c. J c j) ?e"
    unfolding agree_def using M lin_unit[of _ n M] lin_unit_vec[OF j, of J] by simp
  then have "agree n A I0 (\<lambda>c. J c j) ?e" using E by simp
  then have "lin n A (\<lambda>c. J c j) i = lin n I0 ?e i" using i by (simp add: agree_def)
  also have "\<dots> = ?e i" using I0 i by (intro lin_unit) simp_all
  finally show "(\<Sum>k<n. A i k * J k j) = (if i = j then 1 else 0)"
    by (simp add: lin_def)
  have "agree n A I0 ?e (\<lambda>c. A c j)"
    unfolding agree_def using I0 lin_unit[of _ n I0] lin_unit_vec[OF j, of A] by simp
  then have "agree n M J ?e (\<lambda>c. A c j)" using E by simp
  then have "lin n M ?e i = lin n J (\<lambda>c. A c j) i" using i by (simp add: agree_def)
  moreover have "lin n M ?e i = ?e i" using M i by (intro lin_unit) simp_all
  ultimately show "(\<Sum>k<n. J i k * A k j) = (if i = j then 1 else 0)"
    by (simp add: lin_def)
qed


lemma untouched_refl: "untouched m j n s s"
  by (simp add: untouched_def)

lemma untouched_trans: "untouched m j n s s1 \<Longrightarrow> untouched m j n s1 s2 \<Longrightarrow> untouched m j n s s2"
  by (simp add: untouched_def)

lemma subtract_row_view:
  fixes s :: "'a::field mem" and f :: 'a
  assumes M: "is_matrix m n" and J: "is_matrix j n" and S: "separate m n j n"
    and i: "i < n" and p: "p < n" and ip: "i \<noteq> p"
  defines "s' \<equiv> subtract_row m j n i p f s"
  shows "\<forall>i'<n. \<forall>c<n. rd s' m i' c = (if i' = i then rd s m i c - f * rd s m p c else rd s m i' c)"
    and "\<forall>i'<n. \<forall>c<n. rd s' j i' c = (if i' = i then rd s j i c - f * rd s j p c else rd s j i' c)"
    and "untouched m j n s s'"
proof -
  have d: "m i \<noteq> m p" "m i \<noteq> j i" "m i \<noteq> j p" "j i \<noteq> j p" "j i \<noteq> m p"
    using is_matrix_eq[OF M i p] is_matrix_eq[OF J i p] ip
      separateD[OF S i i] separateD[OF S i p] separateD[OF S p i] by auto
  note C = subtract_row_cells[OF d, of n f s, folded s'_def]
  show "\<forall>i'<n. \<forall>c<n. rd s' m i' c = (if i' = i then rd s m i c - f * rd s m p c else rd s m i' c)"
    unfolding C rd_def using is_matrix_eq[OF M _ i] separate_neq[OF S _ i] by auto
  show "\<forall>i'<n. \<forall>c<n. rd s' j i' c = (if i' = i then rd s j i c - f * rd s j p c else rd s j i' c)"
    unfolding C rd_def using is_matrix_eq[OF J _ i] separate_neq'[OF S i] by auto
  show "untouched m j n s s'"
    unfolding C untouched_def using i by (auto simp: fun_eq_iff)
qed

lemma divide_row_view:
  fixes s :: "'a::field mem" and f :: 'a
  assumes M: "is_matrix m n" and J: "is_matrix j n" and S: "separate m n j n"
    and p: "p < n"
  defines "s' \<equiv> divide_row m j n p f s"
  shows "\<forall>i<n. \<forall>c<n. rd s' m i c = (if i = p then rd s m p c / f else rd s m i c)"
    and "\<forall>i<n. \<forall>c<n. rd s' j i c = (if i = p then rd s j p c / f else rd s j i c)"
    and "untouched m j n s s'"
proof -
  have d: "m p \<noteq> j p" using separateD[OF S p p] .
  note C = divide_row_cells[of m p j n f s, OF d, folded s'_def]
  show "\<forall>i<n. \<forall>c<n. rd s' m i c = (if i = p then rd s m p c / f else rd s m i c)"
    unfolding C rd_def using is_matrix_eq[OF M _ p] separate_neq[OF S _ p] by auto
  show "\<forall>i<n. \<forall>c<n. rd s' j i c = (if i = p then rd s j p c / f else rd s j i c)"
    unfolding C rd_def using is_matrix_eq[OF J _ p] separate_neq'[OF S p] by auto
  show "untouched m j n s s'"
    unfolding C untouched_def using p by (auto simp: fun_eq_iff)
qed

lemma eliminate_below:
  fixes s :: "'a::field mem"
  assumes M: "is_matrix m n" and J: "is_matrix j n" and S: "separate m n j n"
    and p: "p < n" and k: "Suc p \<le> k" "k \<le> n"
  defines "s' \<equiv> fold (\<lambda>i s. subtract_row m j n i p (rd s m i p) s) [Suc p..<k] s"
  shows "(\<forall>i<n. \<forall>c<n. rd s' m i c =
            (if p < i \<and> i < k then rd s m i c - rd s m i p * rd s m p c else rd s m i c))
       \<and> (\<forall>i<n. \<forall>c<n. rd s' j i c =
            (if p < i \<and> i < k then rd s j i c - rd s m i p * rd s j p c else rd s j i c))
       \<and> untouched m j n s s'"
  unfolding s'_def using k
proof (induction k rule: dec_induct)
  case base
  show ?case by (auto simp: untouched_refl)
next
  case (step k)
  let ?E = "fold (\<lambda>i s. subtract_row m j n i p (rd s m i p) s) [Suc p..<k] s"
  from step have kn: "k < n" and pk: "p < k" and kp: "k \<noteq> p" by auto
  from step.IH kn have
    IH1: "\<And>i c. i < n \<Longrightarrow> c < n \<Longrightarrow> rd ?E m i c =
            (if p < i \<and> i < k then rd s m i c - rd s m i p * rd s m p c else rd s m i c)"
    and IH2: "\<And>i c. i < n \<Longrightarrow> c < n \<Longrightarrow> rd ?E j i c =
            (if p < i \<and> i < k then rd s j i c - rd s m i p * rd s j p c else rd s j i c)"
    and IH3: "untouched m j n s ?E" by auto
  have unf: "fold (\<lambda>i s. subtract_row m j n i p (rd s m i p) s) [Suc p..<Suc k] s
           = subtract_row m j n k p (rd ?E m k p) ?E"
    using step.hyps by simp
  note V = subtract_row_view[OF M J S kn p kp, where s = ?E and f = "rd ?E m k p"]
  show ?case
    unfolding unf
  proof (intro conjI)
    show "\<forall>i<n. \<forall>c<n. rd (subtract_row m j n k p (rd ?E m k p) ?E) m i c =
            (if p < i \<and> i < Suc k then rd s m i c - rd s m i p * rd s m p c else rd s m i c)"
      using V(1) IH1 kn p pk by (auto simp: less_Suc_eq)
    show "\<forall>i<n. \<forall>c<n. rd (subtract_row m j n k p (rd ?E m k p) ?E) j i c =
            (if p < i \<and> i < Suc k then rd s j i c - rd s m i p * rd s j p c else rd s j i c)"
      using V(2) IH1 IH2 kn p pk by (auto simp: less_Suc_eq)
    show "untouched m j n s (subtract_row m j n k p (rd ?E m k p) ?E)"
      using untouched_trans[OF IH3 V(3)] .
  qed
qed


lemma forward_step_view:
  fixes s :: "'a::field mem"
  assumes M: "is_matrix m n" and J: "is_matrix j n" and S: "separate m n j n"
    and p: "p < n" and step: "forward_step m j n p s = Some s'"
  defines "f \<equiv> rd s m p p"
  defines "a \<equiv> \<lambda>i. if i = p then 1 / f else 1"
  defines "g \<equiv> \<lambda>i. if p < i then - rd s m i p / f else 0"
  shows "f \<noteq> 0"
    and "\<forall>i<n. \<forall>c<n. rd s' m i c = a i * rd s m i c + g i * rd s m p c"
    and "\<forall>i<n. \<forall>c<n. rd s' j i c = a i * rd s j i c + g i * rd s j p c"
    and "untouched m j n s s'"
proof -
  let ?d = "divide_row m j n p f s"
  from step show f0: "f \<noteq> 0"
    by (auto simp: forward_step_def f_def Let_def split: if_splits)
  from step f0 have s': "s' = fold (\<lambda>i s. subtract_row m j n i p (rd s m i p) s) [Suc p..<n] ?d"
    by (auto simp: forward_step_def f_def Let_def split: if_splits)
  note D = divide_row_view[OF M J S p, where f = f and s = s]
  have k: "Suc p \<le> n" using p by simp
  note E = eliminate_below[OF M J S p k le_refl, where s = ?d, folded s']
  show "\<forall>i<n. \<forall>c<n. rd s' m i c = a i * rd s m i c + g i * rd s m p c"
    using E D(1) p f0 by (auto simp: a_def g_def field_simps)
  show "\<forall>i<n. \<forall>c<n. rd s' j i c = a i * rd s j i c + g i * rd s j p c"
    using E D(1,2) p f0 by (auto simp: a_def g_def field_simps)
  show "untouched m j n s s'"
    using untouched_trans[OF D(3)] E by blast
qed

lemma lower_done_step:
  fixes M :: "nat \<Rightarrow> nat \<Rightarrow> 'a::field"
  assumes L: "lower_done p n M" and p: "p < n" and f: "M p p \<noteq> 0"
    and M': "\<forall>i<n. \<forall>c<n. M' i c = (if i = p then 1 / M p p else 1) * M i c
                                  + (if p < i then - M i p / M p p else 0) * M p c"
  shows "lower_done (Suc p) n M'"
  unfolding lower_done_def
proof (intro allI impI)
  fix c i assume c: "c < Suc p" and i: "i < n"
  from c p have cn: "c < n" by simp
  note E = M'[rule_format, OF i cn]
  show "(i = c \<longrightarrow> M' i c = 1) \<and> (c < i \<longrightarrow> M' i c = 0)"
  proof (cases "c = p")
    case True
    with E f show ?thesis by (auto simp: field_simps)
  next
    case False
    with c have cp: "c < p" by simp
    from L cp p have z: "M p c = 0" by (simp add: lower_done_def)
    from L cp i have "(i = c \<longrightarrow> M i c = 1) \<and> (c < i \<longrightarrow> M i c = 0)"
      by (simp add: lower_done_def)
    with E z cp show ?thesis by auto
  qed
qed

lemma forward_invariant:
  fixes s :: "'a::field mem"
  assumes M: "is_matrix m n" and J: "is_matrix j n" and S: "separate m n j n"
  shows "k \<le> n \<Longrightarrow>
         fold (\<lambda>p r. case r of None \<Rightarrow> None | Some s \<Rightarrow> forward_step m j n p s) [0..<k] (Some s)
           = Some sk \<Longrightarrow>
         lower_done k n (rd sk m)
       \<and> (\<forall>x b. agree n (rd sk m) (rd sk j) x b \<longleftrightarrow> agree n (rd s m) (rd s j) x b)
       \<and> untouched m j n s sk"
proof (induction k arbitrary: sk)
  case 0
  then show ?case by (simp add: lower_done_def untouched_refl)
next
  case (Suc k)
  let ?F = "fold (\<lambda>p r. case r of None \<Rightarrow> None | Some s \<Rightarrow> forward_step m j n p s) [0..<k] (Some s)"
  from Suc.prems(2) obtain s0 where F: "?F = Some s0" and st: "forward_step m j n k s0 = Some sk"
    by (auto split: option.splits)
  from Suc.prems have k: "k < n" by simp
  from Suc.IH[OF _ F] k have L: "lower_done k n (rd s0 m)"
    and A: "\<And>x b. agree n (rd s0 m) (rd s0 j) x b \<longleftrightarrow> agree n (rd s m) (rd s j) x b"
    and U: "untouched m j n s s0" by auto
  note V = forward_step_view[OF M J S k st]
  have L': "lower_done (Suc k) n (rd sk m)"
    by (rule lower_done_step[OF L k V(1) V(2)])
  have A': "agree n (rd sk m) (rd sk j) x b \<longleftrightarrow> agree n (rd s0 m) (rd s0 j) x b" for x b
    using V(1) by (intro row_op_agree[OF k _ _ V(2) V(3)]) auto
  show ?case using L' A' A untouched_trans[OF U V(4)] by simp
qed


lemma eliminate_above:
  fixes s :: "'a::field mem"
  assumes M: "is_matrix m n" and J: "is_matrix j n" and S: "separate m n j n"
    and p: "p < n"
  shows "k \<le> p \<Longrightarrow>
         (\<forall>i<n. \<forall>c<n. rd (fold (\<lambda>i s. subtract_row m j n i p (rd s m i p) s) (rev [0..<k]) s) m i c =
            (if i < k then rd s m i c - rd s m i p * rd s m p c else rd s m i c))
       \<and> (\<forall>i<n. \<forall>c<n. rd (fold (\<lambda>i s. subtract_row m j n i p (rd s m i p) s) (rev [0..<k]) s) j i c =
            (if i < k then rd s j i c - rd s m i p * rd s j p c else rd s j i c))
       \<and> untouched m j n s (fold (\<lambda>i s. subtract_row m j n i p (rd s m i p) s) (rev [0..<k]) s)"
proof (induction k arbitrary: s)
  case 0
  show ?case by (simp add: untouched_refl)
next
  case (Suc k)
  let ?s1 = "subtract_row m j n k p (rd s m k p) s"
  from Suc.prems p have kn: "k < n" and kp: "k \<noteq> p" and k: "k \<le> p" by auto
  note V = subtract_row_view[OF M J S kn p kp, where s = s and f = "rd s m k p"]
  note IH = Suc.IH[OF k, of ?s1]
  have unf: "fold (\<lambda>i s. subtract_row m j n i p (rd s m i p) s) (rev [0..<Suc k]) s
           = fold (\<lambda>i s. subtract_row m j n i p (rd s m i p) s) (rev [0..<k]) ?s1"
    by simp
  show ?case
    unfolding unf
  proof (intro conjI)
    show "\<forall>i<n. \<forall>c<n. rd (fold (\<lambda>i s. subtract_row m j n i p (rd s m i p) s) (rev [0..<k]) ?s1) m i c =
            (if i < Suc k then rd s m i c - rd s m i p * rd s m p c else rd s m i c)"
      using IH V(1) kn p kp by (auto simp: less_Suc_eq)
    show "\<forall>i<n. \<forall>c<n. rd (fold (\<lambda>i s. subtract_row m j n i p (rd s m i p) s) (rev [0..<k]) ?s1) j i c =
            (if i < Suc k then rd s j i c - rd s m i p * rd s j p c else rd s j i c)"
      using IH V(1) V(2) kn p kp by (auto simp: less_Suc_eq)
    show "untouched m j n s (fold (\<lambda>i s. subtract_row m j n i p (rd s m i p) s) (rev [0..<k]) ?s1)"
      using untouched_trans[OF V(3)] IH by blast
  qed
qed

lemma backward_step_shape:
  fixes M :: "nat \<Rightarrow> nat \<Rightarrow> 'a::field"
  assumes L: "lower_done n n M" and U: "upper_done (Suc p) n M" and p: "p < n"
    and M': "\<forall>i<n. \<forall>c<n. M' i c = 1 * M i c + (if i < p then - M i p else 0) * M p c"
  shows "lower_done n n M'" and "upper_done p n M'"
proof -
  have row: "M p c = (if c = p then 1 else 0)" if "c < n" for c
  proof -
    consider "c < p" | "c = p" | "p < c" by linarith
    then show ?thesis
    proof cases
      case 1 with L p show ?thesis by (simp add: lower_done_def)
    next
      case 2 with L p show ?thesis by (simp add: lower_done_def)
    next
      case 3 with U that show ?thesis by (simp add: upper_done_def)
    qed
  qed
  have E: "M' i c = (if c = p \<and> i < p then 0 else M i c)" if "i < n" "c < n" for i c
    using M'[rule_format, OF that] row[OF that(2)] by auto
  show "lower_done n n M'"
    unfolding lower_done_def using L E by (auto simp: lower_done_def)
  show "upper_done p n M'"
    unfolding upper_done_def
  proof (intro allI impI)
    fix c i assume c: "c < n" "p \<le> c" and i: "i < c"
    from c i have "i < n" by simp
    from E[OF this c(1)] U c i show "M' i c = 0"
      by (cases "c = p") (auto simp: upper_done_def)
  qed
qed

lemma backward_invariant:
  fixes s :: "'a::field mem"
  assumes M: "is_matrix m n" and J: "is_matrix j n" and S: "separate m n j n"
  shows "k \<le> n \<Longrightarrow> lower_done n n (rd s m) \<Longrightarrow> upper_done k n (rd s m) \<Longrightarrow>
         (\<forall>i<n. \<forall>c<n. rd (fold (\<lambda>p. fold (\<lambda>i s. subtract_row m j n i p (rd s m i p) s) (rev [0..<p]))
                             (rev [0..<k]) s) m i c = (if i = c then 1 else 0))
       \<and> (\<forall>x b. agree n (rd (fold (\<lambda>p. fold (\<lambda>i s. subtract_row m j n i p (rd s m i p) s) (rev [0..<p]))
                             (rev [0..<k]) s) m)
                        (rd (fold (\<lambda>p. fold (\<lambda>i s. subtract_row m j n i p (rd s m i p) s) (rev [0..<p]))
                             (rev [0..<k]) s) j) x b
              \<longleftrightarrow> agree n (rd s m) (rd s j) x b)
       \<and> untouched m j n s (fold (\<lambda>p. fold (\<lambda>i s. subtract_row m j n i p (rd s m i p) s) (rev [0..<p]))
                             (rev [0..<k]) s)"
proof (induction k arbitrary: s)
  case 0
  have "rd s m i c = (if i = c then 1 else 0)" if "i < n" "c < n" for i c
  proof -
    consider "i < c" | "i = c" | "c < i" by linarith
    then show ?thesis
    proof cases
      case 1 with "0.prems"(3) that show ?thesis by (simp add: upper_done_def)
    next
      case 2 with "0.prems"(2) that show ?thesis by (simp add: lower_done_def)
    next
      case 3 with "0.prems"(2) that show ?thesis by (simp add: lower_done_def)
    qed
  qed
  then show ?case by (simp add: untouched_refl)
next
  case (Suc k)
  let ?s1 = "fold (\<lambda>i s. subtract_row m j n i k (rd s m i k) s) (rev [0..<k]) s"
  from Suc.prems have kn: "k < n" and k: "k \<le> n" by auto
  note E = eliminate_above[OF M J S kn le_refl, of s]
  have V1: "\<forall>i<n. \<forall>c<n. rd ?s1 m i c = 1 * rd s m i c + (if i < k then - rd s m i k else 0) * rd s m k c"
    using E by auto
  have V2: "\<forall>i<n. \<forall>c<n. rd ?s1 j i c = 1 * rd s j i c + (if i < k then - rd s m i k else 0) * rd s j k c"
    using E by auto
  have U: "untouched m j n s ?s1" using E by blast
  note Sh = backward_step_shape[OF Suc.prems(2,3) kn V1]
  have A: "agree n (rd ?s1 m) (rd ?s1 j) x b \<longleftrightarrow> agree n (rd s m) (rd s j) x b" for x b
    by (intro row_op_agree[OF kn _ _ V1 V2]) auto
  have unf: "fold (\<lambda>p. fold (\<lambda>i s. subtract_row m j n i p (rd s m i p) s) (rev [0..<p])) (rev [0..<Suc k]) s
           = fold (\<lambda>p. fold (\<lambda>i s. subtract_row m j n i p (rd s m i p) s) (rev [0..<p])) (rev [0..<k]) ?s1"
    by simp
  note IH = Suc.IH[OF k Sh, unfolded A]
  show ?case
    unfolding unf using IH untouched_trans[OF U] by blast
qed


lemma identity_row:
  "fold (\<lambda>j. wr idm i j (if i = j then 1 else 0)) [0..<n] s =
     (\<lambda>b c. if b = idm i \<and> c < n then (if i = c then 1 else 0) else s b c)"
proof (induction n)
  case 0
  show ?case by simp
next
  case (Suc n)
  show ?case
    apply (subst fold_upt_Suc)
    apply (simp only: Suc.IH)
    apply (auto simp: wr_def fun_eq_iff less_Suc_eq)
    done
qed

lemma identity_fill:
  assumes I: "is_matrix idm rows"
  shows "k \<le> rows \<Longrightarrow>
         (\<forall>i<k. \<forall>c<cols. rd (fold (\<lambda>i. fold (\<lambda>j. wr idm i j (if i = j then 1 else 0)) [0..<cols])
                              [0..<k] s) idm i c = (if i = c then 1 else 0))
       \<and> (\<forall>b. (\<forall>i<k. b \<noteq> idm i) \<longrightarrow>
              fold (\<lambda>i. fold (\<lambda>j. wr idm i j (if i = j then 1 else 0)) [0..<cols]) [0..<k] s b = s b)"
proof (induction k)
  case 0
  show ?case by simp
next
  case (Suc k)
  let ?F = "fold (\<lambda>i. fold (\<lambda>j. wr idm i j (if i = j then 1 else 0)) [0..<cols]) [0..<k] s"
  from Suc have IH1: "\<And>i c. i < k \<Longrightarrow> c < cols \<Longrightarrow> rd ?F idm i c = (if i = c then 1 else 0)"
    and IH2: "\<And>b. (\<forall>i<k. b \<noteq> idm i) \<Longrightarrow> ?F b = s b" by auto
  have d: "idm i \<noteq> idm k" if "i < k" for i
    using is_matrix_eq[OF I, of i k] that Suc.prems by simp
  have unf: "fold (\<lambda>i. fold (\<lambda>j. wr idm i j (if i = j then 1 else 0)) [0..<cols]) [0..<Suc k] s
      = (\<lambda>b c. if b = idm k \<and> c < cols then (if k = c then 1 else 0) else ?F b c)"
    by (simp add: identity_row)
  show ?case
    unfolding unf using IH1 IH2 d by (auto simp: rd_def less_Suc_eq)
qed

lemma is_matrix_rows_at: "is_matrix (rows_at b) n"
  by (simp add: is_matrix_iff inj_on_def rows_at_def)

lemma allocated_iff: "allocated m n h \<longleftrightarrow> (\<forall>i<n. m i < next_block h)"
  by (auto simp: allocated_def list_all_iff)

lemma separate_fresh: "allocated m n h \<Longrightarrow> separate m n (rows_at (next_block h)) k"
  by (auto simp: separate_iff allocated_iff rows_at_def)

lemma inverse_c_spec:
  fixes h :: "'a::field heap"
  assumes M: "is_matrix matrix n" and A: "allocated matrix n h"
    and R: "inverse_c matrix n n h = Some (I, h')"
  shows "I = rows_at (next_block h)" and "next_block h' = next_block h + n"
    and "\<forall>i<n. \<forall>c<n. rd (cells h') matrix i c = (if i = c then 1 else 0)"
    and "\<forall>i<n. \<forall>j<n. (\<Sum>k<n. rd (cells h) matrix i k * rd (cells h') I k j) = (if i = j then 1 else 0)"
    and "\<forall>i<n. \<forall>j<n. (\<Sum>k<n. rd (cells h') I i k * rd (cells h) matrix k j) = (if i = j then 1 else 0)"
    and "\<forall>b. b < next_block h \<and> (\<forall>i<n. b \<noteq> matrix i) \<longrightarrow> cells h' b = cells h b"
proof -
  let ?j = "rows_at (next_block h)"
  let ?s1 = "fold (\<lambda>i. fold (\<lambda>j. wr ?j i j (if i = j then 1 else 0)) [0..<n]) [0..<n] (cells h)"
  from R obtain s2 where F: "forward matrix ?j n ?s1 = Some s2"
    and I: "I = ?j" and h': "h' = h\<lparr>next_block := next_block h + n, cells := backward matrix ?j n s2\<rparr>"
    by (auto simp: inverse_c_def malloc_rows_def Let_def split: option.splits)
  let ?s3 = "backward matrix ?j n s2"
  note J = is_matrix_rows_at[of "next_block h" n]
  note S = separate_fresh[OF A, of n]
  note Fill = identity_fill[OF J le_refl, of n "cells h"]
  have m1: "rd ?s1 matrix i c = rd (cells h) matrix i c" if "i < n" for i c
  proof -
    have "\<forall>i'<n. matrix i \<noteq> ?j i'" using separateD[OF S that] by simp
    with Fill show ?thesis by (simp add: rd_def)
  qed
  have j1: "\<forall>i<n. \<forall>c<n. rd ?s1 ?j i c = (if i = c then 1 else 0)"
    using Fill by blast
  have u1: "untouched matrix ?j n (cells h) ?s1"
    using Fill by (simp add: untouched_def)
  note FI = forward_invariant[OF M J S le_refl, of "?s1" s2, OF F[unfolded forward_def]]
  have up: "upper_done n n (rd s2 matrix)" by (simp add: upper_done_def)
  note BI = backward_invariant[OF M J S le_refl, of s2, OF _ up, folded backward_def]
  from FI have L: "lower_done n n (rd s2 matrix)" by blast
  from BI[OF L] have fin: "\<forall>i<n. \<forall>c<n. rd ?s3 matrix i c = (if i = c then 1 else 0)"
    and E: "\<And>x b. agree n (rd ?s3 matrix) (rd ?s3 ?j) x b \<longleftrightarrow> agree n (rd ?s1 matrix) (rd ?s1 ?j) x b"
    and u3: "untouched matrix ?j n s2 ?s3"
    using FI by auto
  from FI have u2: "untouched matrix ?j n ?s1 s2" by blast
  have c': "cells h' = ?s3" and nb: "next_block h' = next_block h + n" by (simp_all add: h')
  show "I = ?j" by (rule I)
  show "next_block h' = next_block h + n" by (rule nb)
  show "\<forall>i<n. \<forall>c<n. rd (cells h') matrix i c = (if i = c then 1 else 0)"
    unfolding c' by (rule fin)
  show "\<forall>i<n. \<forall>j<n. (\<Sum>k<n. rd (cells h) matrix i k * rd (cells h') I k j) = (if i = j then 1 else 0)"
  proof (intro allI impI)
    fix i j assume i: "i < n" and j: "j < n"
    have "(\<Sum>k<n. rd (cells h) matrix i k * rd (cells h') I k j)
        = (\<Sum>k<n. rd ?s1 matrix i k * rd ?s3 ?j k j)"
      unfolding c' I by (rule sum.cong) (simp_all add: m1[OF i])
    also have "\<dots> = (if i = j then 1 else 0)"
      by (rule agree_identity_inverse(1)[OF E fin j1 i j])
    finally show "(\<Sum>k<n. rd (cells h) matrix i k * rd (cells h') I k j) = (if i = j then 1 else 0)" .
  qed
  show "\<forall>i<n. \<forall>j<n. (\<Sum>k<n. rd (cells h') I i k * rd (cells h) matrix k j) = (if i = j then 1 else 0)"
  proof (intro allI impI)
    fix i j assume i: "i < n" and j: "j < n"
    have "(\<Sum>k<n. rd (cells h') I i k * rd (cells h) matrix k j)
        = (\<Sum>k<n. rd ?s3 ?j i k * rd ?s1 matrix k j)"
      unfolding c' I by (rule sum.cong) (simp_all add: m1)
    also have "\<dots> = (if i = j then 1 else 0)"
      by (rule agree_identity_inverse(2)[OF E fin j1 i j])
    finally show "(\<Sum>k<n. rd (cells h') I i k * rd (cells h) matrix k j) = (if i = j then 1 else 0)" .
  qed
  show "\<forall>b. b < next_block h \<and> (\<forall>i<n. b \<noteq> matrix i) \<longrightarrow> cells h' b = cells h b"
  proof (intro allI impI)
    fix b assume b: "b < next_block h \<and> (\<forall>i<n. b \<noteq> matrix i)"
    then have "\<forall>i<n. b \<noteq> matrix i \<and> b \<noteq> ?j i" by (auto simp: rows_at_def)
    with untouched_trans[OF untouched_trans[OF u1 u2] u3]
    show "cells h' b = cells h b" unfolding c' by (simp add: untouched_def)
  qed
qed




lemmas run_defs = inverse_c_def malloc_rows_def forward_def forward_step_def backward_def
  divide_row_def subtract_row_def transpose_c_def multiply_def insertZeroes_def
  wr_def rd_def rows_at_def Let_def

text \<open>
  Claim C1.  Let \<open>matrix\<close> be an \<open>n \<times> n\<close> matrix in allocated memory and let
  \<^verbatim>\<open>inverse\<close> run on it without meeting a zero pivot, returning \<open>I\<close>.  Then the product of
  the original matrix with \<open>I\<close> is the identity, exactly; so is the product in the other
  order.
\<close>

theorem inverse_c_right_inverse:
  fixes h :: "'a::field heap"
  assumes "is_matrix matrix n" and "allocated matrix n h"
    and "inverse_c matrix n n h = Some (I, h')"
  shows "(\<forall>i<n. \<forall>j<n. (\<Sum>k<n. rd (cells h) matrix i k * rd (cells h') I k j) = (if i = j then 1 else 0))
       \<and> (\<forall>i<n. \<forall>j<n. (\<Sum>k<n. rd (cells h') I i k * rd (cells h) matrix k j) = (if i = j then 1 else 0))"
  using inverse_c_spec(4,5)[OF assms] by blast

theorem inverse_c_right_inverse_witness:
  "is_matrix (rows_at 0) 2 \<and> allocated (rows_at 0) 2 example_heap
   \<and> (case inverse_c (rows_at 0) 2 2 example_heap of
        None \<Rightarrow> False
      | Some (I, h') \<Rightarrow>
          (\<Sum>k<2. rd (cells example_heap) (rows_at 0) 1 k * rd (cells h') I k 1) = 1
        \<and> (\<Sum>k<2. rd (cells example_heap) (rows_at 0) 0 k * rd (cells h') I k 1) = 0)"
proof -
  have h1: "is_matrix (rows_at 0) 2" by code_simp
  have h2: "allocated (rows_at 0) 2 example_heap" by code_simp
  have "inverse_c (rows_at 0) 2 2 example_heap \<noteq> None"
    by (simp add: run_defs example_heap_def eval_nat_numeral)
  then obtain I h' where R: "inverse_c (rows_at 0) 2 2 example_heap = Some (I, h')"
    by auto
  note T = inverse_c_right_inverse[OF h1 h2 R, THEN conjunct1, rule_format]
  from T[of 1 1] T[of 0 1] h1 h2 R show ?thesis by simp
qed



end
